theory Spec2Isabelle
  imports Complex_Main "HOL-Library.Word" "HOL-Library.Signed_Division"
begin

section \<open>The word codec of keys/wordcodec.go\<close>

text \<open>
  The package converts a byte buffer into a sequence of words of a 2048-word bank and
  back. The buffer, with a checksum appended, is read as one big-endian number and
  written in base 2048, one word per digit.

  Conventions of the embedding.
  \<^item> A Go function returning \<open>(value, error)\<close> returns a sum here: \<open>Inr value\<close>, or
    \<open>Inl (Err e)\<close> for a returned error, or \<open>Inl Panic\<close> where the Go runtime panics
    (an index or a slice bound out of range).
  \<^item> Go's \<open>int\<close> is modelled by \<open>int\<close> and its \<open>/\<close>, which truncates towards
    zero, by \<open>sdiv\<close>. The arguments are lengths of slices held in memory, for which
    \<open>8 * n + 10\<close> and \<open>11 * n\<close> stay inside the machine range; the fixed-width
    versions of the two length functions are given as well, and they agree with the
    unbounded ones below \<open>2 ^ 27\<close> on 32 bits and below \<open>2 ^ 59\<close> on 64 bits.
  \<^item> A \<open>big.Int\<close> of this file is never negative (\<open>SetBytes\<close> yields a non-negative
    number, and it is only divided by and multiplied with 2048), so it is a \<open>nat\<close>;
    positions in the bank are \<open>nat\<close> as well.
  \<^item> The interface \<open>ECC\<close> and the constructor \<open>NewIEEECRC32\<close> are declared outside
    this file. A checksum is a record of its two methods, and \<open>NewCodec\<close> takes the
    checksum it installs as a parameter.
\<close>

subsection \<open>Data\<close>

type_synonym byte = "8 word"

text \<open>
  The errors of the package are made with \<open>errors.Errorf\<close>; a constructor stands for
  a format string and keeps its arguments: \<open>InvalidBankSize\<close> for
  \<open>"Bank must have %d words, found %d"\<close>, \<open>DuplicateWord\<close> for
  \<open>"Duplicate word in list: %s"\<close>, \<open>UnrecognizedWord\<close> for
  \<open>"Unrecognized word: %s"\<close>. \<open>ChecksumMismatch\<close> carries the error that
  \<open>CheckECC\<close> returned, which \<open>WordsToBytes\<close> hands on unchanged.
\<close>

datatype error =
    InvalidBankSize nat nat
  | DuplicateWord string
  | UnrecognizedWord string
  | ChecksumMismatch string

datatype failure = Err error | Panic

type_synonym 'a result = "failure + 'a"

text \<open>The two methods of the interface \<open>ECC\<close>, as \<open>BytesToWords\<close> and \<open>WordsToBytes\<close> call them.\<close>

record ECC =
  AddECC :: "byte list \<Rightarrow> byte list"
  CheckECC :: "byte list \<Rightarrow> string + byte list"

text \<open>The struct \<open>WordCodec\<close> (lines 21 to 25); a nil map is \<open>None\<close>.\<close>

record WordCodec =
  words :: "string list"
  bytes :: "(string \<rightharpoonup> nat) option"
  check :: ECC

definition BankSize :: nat where
  "BankSize = 2048"

subsection \<open>Construction\<close>

text \<open>
  \<open>NewCodec\<close> (lines 29 to 41) compares the length of the bank with \<open>BankSize\<close> and
  does nothing else: the field \<open>bytes\<close> is left nil. The parameter \<open>crc\<close> stands for
  the value of \<open>NewIEEECRC32()\<close>.
\<close>

definition NewCodec :: "ECC \<Rightarrow> string list \<Rightarrow> WordCodec result" where
  "NewCodec crc ws =
     (if length ws \<noteq> BankSize
      then Inl (Err (InvalidBankSize BankSize (length ws)))
      else Inr \<lparr>words = ws, bytes = None, check = crc\<rparr>)"

subsection \<open>Lengths\<close>

text \<open>
  \<open>wordlenFromBytes\<close> (lines 79 to 83) and \<open>bytelenFromWords\<close> (lines 88 to 96); the
  second result of the latter is \<open>maybeShorter\<close>.
\<close>

definition wordlenFromBytes :: "int \<Rightarrow> int" where
  "wordlenFromBytes numBytes = (8 * numBytes + 10) sdiv 11"

definition bytelenFromWords :: "int \<Rightarrow> int \<times> bool" where
  "bytelenFromWords numWords =
     (let len = (11 * numWords) sdiv 8
      in (len, wordlenFromBytes (len - 1) = numWords))"

subsection \<open>The lengths on machine integers\<close>

text \<open>
  Go's \<open>int\<close> has 32 or 64 bits, and every operation on it is reduced to the two's
  complement range. The two length functions once more, with that reduction written
  out after each operation; \<open>lengths_on_machine_integers\<close> shows that they are the
  functions above on every length that the machine can hold eleven times over.
\<close>

definition go_int :: "nat \<Rightarrow> int \<Rightarrow> int" where
  "go_int bits k = signed_take_bit (bits - 1) k"

definition wordlenFromBytes_fixed :: "nat \<Rightarrow> int \<Rightarrow> int" where
  "wordlenFromBytes_fixed bits numBytes =
     go_int bits (go_int bits (go_int bits (8 * numBytes) + 10) sdiv 11)"

definition bytelenFromWords_fixed :: "nat \<Rightarrow> int \<Rightarrow> int \<times> bool" where
  "bytelenFromWords_fixed bits numWords =
     (let len = go_int bits (go_int bits (11 * numWords) sdiv 8)
      in (len, wordlenFromBytes_fixed bits (go_int bits (len - 1)) = numWords))"

subsection \<open>The reverse index\<close>

text \<open>
  \<open>GetIndex\<close> (lines 162 to 181) has a value receiver: the map it stores in
  \<open>c.bytes\<close> is stored in its own copy of the codec, so the caller's codec is
  unchanged and the function is a pure function of the codec and the word.
  \<open>buildIndex ws i b\<close> is its loop over \<open>c.words\<close>, with \<open>ws\<close> the words still to
  come, \<open>i\<close> the index of the first of them and \<open>b\<close> the map built so far.
\<close>

fun buildIndex :: "string list \<Rightarrow> nat \<Rightarrow> (string \<rightharpoonup> nat) \<Rightarrow> (string \<rightharpoonup> nat) result" where
  "buildIndex [] i b = Inr b"
| "buildIndex (w # ws) i b =
     (case b w of
        Some _ \<Rightarrow> Inl (Err (DuplicateWord w))
      | None \<Rightarrow> buildIndex ws (Suc i) (b(w \<mapsto> i)))"

definition GetIndex :: "WordCodec \<Rightarrow> string \<Rightarrow> nat result" where
  "GetIndex c word =
     (case (case bytes c of
              None \<Rightarrow> buildIndex (words c) 0 Map.empty
            | Some b \<Rightarrow> Inr b) of
        Inl e \<Rightarrow> Inl e
      | Inr b \<Rightarrow>
          (case b word of
             None \<Rightarrow> Inl (Err (UnrecognizedWord word))
           | Some rem \<Rightarrow> Inr rem))"

subsection \<open>Big integers and bytes\<close>

text \<open>\<open>big.Int.SetBytes\<close>: the buffer read as a big-endian number.\<close>

definition SetBytes :: "byte list \<Rightarrow> nat" where
  "SetBytes data = foldl (\<lambda>acc b. acc * 256 + unat b) 0 data"

text \<open>\<open>big.Int.Bytes\<close>: the big-endian bytes with no leading zero byte; none for 0.\<close>

function Bytes :: "nat \<Rightarrow> byte list" where
  "Bytes n = (if n = 0 then [] else Bytes (n div 256) @ [of_nat (n mod 256)])"
  by pat_completeness auto
termination
  by (relation "measure (\<lambda>n. n)") auto

declare Bytes.simps [simp del]

subsection \<open>Encoding\<close>

text \<open>
  \<open>BytesToWords\<close> (lines 99 to 121). \<open>encodeLoop\<close> is its loop, with the loop counter
  \<open>i\<close>, the number \<open>nData\<close> and the words appended so far as arguments. The index
  expression \<open>c.words[rem]\<close> panics when \<open>rem\<close> is not below the length of the bank.
\<close>

function encodeLoop ::
  "WordCodec \<Rightarrow> int \<Rightarrow> int \<Rightarrow> nat \<Rightarrow> string list \<Rightarrow> string list result" where
  "encodeLoop c numWords i nData ws =
     (if i < numWords then
        (let rem = nData mod 2048; nData' = nData div 2048
         in if rem < length (words c) then
              (let w = words c ! rem
               in case GetIndex c w of
                    Inl e \<Rightarrow> Inl e
                  | Inr _ \<Rightarrow> encodeLoop c numWords (i + 1) nData' (ws @ [w]))
            else Inl Panic)
      else Inr ws)"
  by pat_completeness auto
termination
  by (relation "measure (\<lambda>(c, numWords, i, nData, ws). nat (numWords - i))") auto

declare encodeLoop.simps [simp del]

definition BytesToWords :: "WordCodec \<Rightarrow> byte list \<Rightarrow> string list result" where
  "BytesToWords c raw =
     (let data = AddECC (check c) raw;
          numWords = wordlenFromBytes (int (length data))
      in encodeLoop c numWords 0 (SetBytes data) [])"

subsection \<open>Decoding\<close>

text \<open>
  \<open>WordsToBytes\<close> (lines 123 to 157). \<open>decodeLoop\<close> is its loop over
  \<open>i = 1, ..., l\<close>, which reads \<open>words[l-i]\<close>.
\<close>

function decodeLoop :: "WordCodec \<Rightarrow> string list \<Rightarrow> nat \<Rightarrow> nat \<Rightarrow> nat result" where
  "decodeLoop c ws i nData =
     (if i \<le> length ws then
        (case GetIndex c (ws ! (length ws - i)) of
           Inl e \<Rightarrow> Inl e
         | Inr rem \<Rightarrow> decodeLoop c ws (i + 1) (nData * 2048 + rem))
      else Inr nData)"
  by pat_completeness auto
termination
  by (relation "measure (\<lambda>(c, ws, i, nData). Suc (length ws) - i)") auto

declare decodeLoop.simps [simp del]

text \<open>Go's \<open>copy(dst, src)\<close>: the first \<open>min (len dst) (len src)\<close> elements are overwritten.\<close>

definition copy :: "'a list \<Rightarrow> 'a list \<Rightarrow> 'a list" where
  "copy dst src = take (length dst) src @ drop (length src) dst"

text \<open>
  The checksum stage of \<open>WordsToBytes\<close>, from \<open>nData.Bytes()\<close> on. The slice
  expression \<open>toCheck[outLen-len(dataBytes):]\<close> panics when its lower bound is negative,
  and \<open>toCheck[1:]\<close> panics when \<open>toCheck\<close> is empty.
\<close>

definition checkStage :: "ECC \<Rightarrow> nat \<Rightarrow> nat \<Rightarrow> byte list result" where
  "checkStage crc nData l =
     (let dataBytes = Bytes nData;
          (outLen, flex) = bytelenFromWords (int l);
          toCheck = replicate (nat outLen) (0 :: byte);
          off = outLen - int (length dataBytes)
      in if off < 0 then Inl Panic
         else
           (let toCheck = take (nat off) toCheck @ copy (drop (nat off) toCheck) dataBytes
            in case CheckECC crc toCheck of
                 Inr output \<Rightarrow> Inr output
               | Inl err \<Rightarrow>
                   if flex then
                     (if length toCheck < 1 then Inl Panic
                      else case CheckECC crc (drop 1 toCheck) of
                             Inr output \<Rightarrow> Inr output
                           | Inl err' \<Rightarrow> Inl (Err (ChecksumMismatch err')))
                   else Inl (Err (ChecksumMismatch err))))"

definition WordsToBytes :: "WordCodec \<Rightarrow> string list \<Rightarrow> byte list result" where
  "WordsToBytes c ws =
     (case decodeLoop c ws 1 0 of
        Inl e \<Rightarrow> Inl e
      | Inr nData \<Rightarrow> checkStage (check c) nData (length ws))"

subsection \<open>The accumulation in the words of the specification\<close>

text \<open>
  Section 4.3, step 2 of the specification: start with accumulator 0; for each word,
  multiply the accumulator by 2048 and add the word's digit value; stop at the first
  word that has none. The specification applies it to the words from last to first,
  which is \<open>spec_accumulate c (rev ws) 0\<close>. It is compared with the loop of the
  source, \<open>decodeLoop\<close>, in \<open>decodeLoop_rev\<close>.
\<close>

fun spec_accumulate :: "WordCodec \<Rightarrow> string list \<Rightarrow> nat \<Rightarrow> nat result" where
  "spec_accumulate c [] acc = Inr acc"
| "spec_accumulate c (w # ws) acc =
     (case GetIndex c w of
        Inl e \<Rightarrow> Inl e
      | Inr d \<Rightarrow> spec_accumulate c ws (acc * 2048 + d))"

section \<open>A concrete bank and two concrete checksums\<close>

text \<open>
  The theorems below are instantiated on a bank of 2048 distinct words
  (\<open>a\<close>, \<open>aa\<close>, \<open>aaa\<close>, ...), on the same bank with its second word replaced by
  its first, and on two one-byte checksums: the sum of the bytes, and the sum of the
  bytes plus their number. Both checksums return the payload of every buffer they
  produced.
\<close>

definition testWord :: "nat \<Rightarrow> string" where
  "testWord i = replicate (Suc i) (CHR ''a'')"

definition testBank :: "string list" where
  "testBank = map testWord [0..<2048]"

definition dupBank :: "string list" where
  "dupBank = testBank[1 := testBank ! 0]"

definition sumECC :: ECC where
  "sumECC =
     \<lparr>AddECC = (\<lambda>raw. raw @ [sum_list raw]),
      CheckECC = (\<lambda>bs. if bs = [] then Inl ''input too short''
                        else if last bs = sum_list (butlast bs) then Inr (butlast bs)
                        else Inl ''checksum mismatch'')\<rparr>"

definition lenECC :: ECC where
  "lenECC =
     \<lparr>AddECC = (\<lambda>raw. raw @ [sum_list raw + of_nat (length raw)]),
      CheckECC = (\<lambda>bs. if bs = [] then Inl ''input too short''
                        else if last bs = sum_list (butlast bs) + of_nat (length (butlast bs))
                        then Inr (butlast bs)
                        else Inl ''checksum mismatch'')\<rparr>"

section \<open>Length arithmetic\<close>

lemma sdiv_nonneg: "0 \<le> a \<Longrightarrow> 0 < b \<Longrightarrow> a sdiv b = a div (b :: int)"
  by (simp add: signed_divide_int_def sgn_if)

lemma int_div_bounds: "0 < b \<Longrightarrow> b * (a div b) \<le> a \<and> a < b * (a div b) + (b::int)"
  by (metis mult.commute div_mult_mod_eq pos_mod_bound pos_mod_sign add_less_cancel_left
      le_add_same_cancel1)

lemma wordlen_bounds:
  "11 * ((8 * n + 10) div 11) \<le> 8 * n + 10 \<and> 8 * n + 10 < 11 * ((8 * n + 10) div 11) + (11::int)"
  using int_div_bounds [of 11 "8 * n + 10"] by simp

lemma bytelen_bounds:
  "8 * ((11 * w) div 8) \<le> 11 * w \<and> 11 * w < 8 * ((11 * w) div 8) + (8::int)"
  using int_div_bounds [of 8 "11 * w"] by simp

lemma wordlenFromBytes_nonneg: "0 \<le> n \<Longrightarrow> wordlenFromBytes n = (8 * n + 10) div 11"
  by (simp add: wordlenFromBytes_def sdiv_nonneg)

lemma wordlenFromBytes_minus_one: "wordlenFromBytes (- 1) = 0"
  by (simp add: wordlenFromBytes_def signed_divide_int_def)

lemma bytelenFromWords_fst: "0 \<le> w \<Longrightarrow> fst (bytelenFromWords w) = (11 * w) div 8"
  by (simp add: bytelenFromWords_def Let_def sdiv_nonneg)





section \<open>Properties of the concrete banks\<close>

lemma length_testBank: "length testBank = 2048"
  by (simp add: testBank_def)

lemma distinct_testBank: "distinct testBank"
proof -
  have "inj testWord"
    by (rule injI) (simp add: testWord_def)
  then show ?thesis
    by (simp add: testBank_def distinct_map inj_on_def inj_def)
qed

lemma testBank_nth: "k < 2048 \<Longrightarrow> testBank ! k = testWord k"
  by (simp add: testBank_def)

lemma length_dupBank: "length dupBank = 2048"
  by (simp add: dupBank_def length_testBank)

lemma not_distinct_dupBank: "\<not> distinct dupBank"
proof
  assume d: "distinct dupBank"
  have "dupBank ! 0 = dupBank ! 1"
    by (simp add: dupBank_def length_testBank)
  with d show False
    by (simp add: distinct_conv_nth length_dupBank)
qed

section \<open>Properties of the reverse index\<close>

lemma buildIndex_distinct:
  "distinct ws \<Longrightarrow> set ws \<inter> dom b = {} \<Longrightarrow>
   buildIndex ws i b = Inr (b ++ map_of (zip ws [i..<i + length ws]))"
proof (induction ws arbitrary: i b)
  case Nil
  then show ?case by simp
next
  case (Cons w ws)
  from Cons.prems have bw: "b w = None" and d: "distinct ws" and nw: "w \<notin> set ws"
    and dj: "set ws \<inter> dom (b(w \<mapsto> i)) = {}"
    by auto
  have nd: "w \<notin> dom (map_of (zip ws [Suc i..<Suc i + length ws]))"
    using nw by auto
  have "buildIndex (w # ws) i b = buildIndex ws (Suc i) (b(w \<mapsto> i))"
    using bw by simp
  also have "\<dots> = Inr (b(w \<mapsto> i) ++ map_of (zip ws [Suc i..<Suc i + length ws]))"
    using Cons.IH [OF d dj] .
  also have "b(w \<mapsto> i) ++ map_of (zip ws [Suc i..<Suc i + length ws])
           = b ++ map_of (zip (w # ws) [i..<i + length (w # ws)])"
  proof -
    have u: "[i..<i + length (w # ws)] = i # [Suc i..<Suc i + length ws]"
      by (simp add: upt_rec)
    show ?thesis
      unfolding u using nd by (simp add: map_add_upd_left del: upt_Suc)
  qed
  finally show ?case .
qed

lemma buildIndex_duplicate:
  "\<not> distinct ws \<or> set ws \<inter> dom b \<noteq> {} \<Longrightarrow>
   \<exists>w. buildIndex ws i b = Inl (Err (DuplicateWord w)) \<and> w \<in> set ws
      \<and> (w \<in> dom b \<or> 2 \<le> count_list ws w)"
proof (induction ws arbitrary: i b)
  case Nil
  then show ?case by simp
next
  case (Cons w ws)
  show ?case
  proof (cases "b w")
    case (Some j)
    then show ?thesis by auto
  next
    case None
    with Cons.prems have "\<not> distinct ws \<or> set ws \<inter> dom (b(w \<mapsto> i)) \<noteq> {}"
      by auto
    from Cons.IH [OF this, of "Suc i"] obtain w' where
      r: "buildIndex ws (Suc i) (b(w \<mapsto> i)) = Inl (Err (DuplicateWord w'))"
      and m: "w' \<in> set ws"
      and c: "w' \<in> dom (b(w \<mapsto> i)) \<or> 2 \<le> count_list ws w'"
      by blast
    have "count_list ws w' \<noteq> 0"
      using m by (simp add: count_list_0_iff)
    then have pos: "1 \<le> count_list ws w'"
      by simp
    have "w' \<in> dom b \<or> 2 \<le> count_list (w # ws) w'"
      using c pos by auto
    with r m None show ?thesis by auto
  qed
qed

lemma GetIndex_bank:
  assumes "bytes c = None" and "distinct (words c)" and "k < length (words c)"
  shows "GetIndex c (words c ! k) = Inr k"
proof -
  have "map_of (zip (words c) [0..<length (words c)]) (words c ! k) = Some ([0..<length (words c)] ! k)"
    using assms by (intro map_of_zip_nth) simp_all
  then show ?thesis
    using assms buildIndex_distinct [of "words c" Map.empty 0] by (simp add: GetIndex_def)
qed

lemma GetIndex_absent:
  assumes "bytes c = None" and "distinct (words c)" and "w \<notin> set (words c)"
  shows "GetIndex c w = Inl (Err (UnrecognizedWord w))"
proof -
  have n: "map_of (zip (words c) [0..<length (words c)]) w = None"
    using assms by simp
  show ?thesis
    using assms buildIndex_distinct [of "words c" Map.empty 0] by (simp add: GetIndex_def n)
qed

lemma GetIndex_duplicate:
  assumes "bytes c = None" and "\<not> distinct (words c)"
  shows "\<exists>w. 2 \<le> count_list (words c) w \<and> (\<forall>word. GetIndex c word = Inl (Err (DuplicateWord w)))"
proof -
  from buildIndex_duplicate [of "words c" Map.empty 0] assms(2)
  obtain w where "buildIndex (words c) 0 Map.empty = Inl (Err (DuplicateWord w))"
    and "2 \<le> count_list (words c) w"
    by auto
  then show ?thesis
    using assms(1) by (auto simp: GetIndex_def)
qed

section \<open>Construction and the bank\<close>

text \<open>
  C3. \<open>NewCodec\<close> fails with \<open>InvalidBankSize\<close> (expected 2048, found the length)
  for every bank whose length is not 2048, and returns a codec holding the bank for
  every bank of exactly 2048 entries.
\<close>

theorem bank_size_invariant:
  "(length ws \<noteq> 2048 \<longrightarrow> NewCodec crc ws = Inl (Err (InvalidBankSize 2048 (length ws))))
 \<and> (length ws = 2048 \<longrightarrow> NewCodec crc ws = Inr \<lparr>words = ws, bytes = None, check = crc\<rparr>)"
  by (simp add: NewCodec_def BankSize_def)

theorem bank_size_invariant_witness:
  "length ([] :: string list) \<noteq> 2048
   \<and> NewCodec sumECC [] = Inl (Err (InvalidBankSize 2048 0))
   \<and> length testBank = 2048 \<and> distinct testBank
   \<and> NewCodec sumECC testBank = Inr \<lparr>words = testBank, bytes = None, check = sumECC\<rparr>"
  using bank_size_invariant [of "[]" sumECC] bank_size_invariant [of testBank sumECC]
    length_testBank distinct_testBank
  by simp

text \<open>
  C4, as stated, fails: \<open>NewCodec\<close> does not look for duplicates. The bank
  \<open>dupBank\<close> has 2048 entries, two of them equal, and construction succeeds.
\<close>

theorem duplicate_bank_accepted:
  "\<not> distinct dupBank
   \<and> NewCodec sumECC dupBank = Inr \<lparr>words = dupBank, bytes = None, check = sumECC\<rparr>"
  using not_distinct_dupBank length_dupBank by (simp add: NewCodec_def BankSize_def)

text \<open>
  C4, amended. For every bank of 2048 entries with two equal entries, construction
  succeeds, and the duplicate is found when the index is built, which is at every
  lookup: each call of \<open>GetIndex\<close> on the codec, for any word, fails with
  \<open>DuplicateWord\<close> naming a word that occurs at least twice in the bank.
\<close>

theorem duplicate_detected_on_lookup:
  assumes "length ws = 2048" and "\<not> distinct ws"
  shows "\<exists>c w. NewCodec crc ws = Inr c \<and> 2 \<le> count_list ws w
            \<and> (\<forall>word. GetIndex c word = Inl (Err (DuplicateWord w)))"
proof -
  let ?c = "\<lparr>words = ws, bytes = None, check = crc\<rparr>"
  have n: "NewCodec crc ws = Inr ?c"
    using assms(1) by (simp add: NewCodec_def BankSize_def)
  from GetIndex_duplicate [of ?c] assms(2) obtain w where
    "2 \<le> count_list ws w" "\<forall>word. GetIndex ?c word = Inl (Err (DuplicateWord w))"
    by auto
  with n show ?thesis by blast
qed

theorem duplicate_detected_on_lookup_witness:
  "length dupBank = 2048 \<and> \<not> distinct dupBank
   \<and> (\<exists>c w. NewCodec sumECC dupBank = Inr c \<and> 2 \<le> count_list dupBank w
            \<and> (\<forall>word. GetIndex c word = Inl (Err (DuplicateWord w))))"
  using duplicate_detected_on_lookup [of dupBank sumECC] length_dupBank not_distinct_dupBank
  by simp

section \<open>The decoding loop\<close>

lemma NewCodec_Inr:
  "NewCodec crc bank = Inr c \<Longrightarrow>
   words c = bank \<and> bytes c = None \<and> check c = crc \<and> length bank = 2048"
  by (auto simp: NewCodec_def BankSize_def split: if_splits)

lemma decodeLoop_spec:
  "1 \<le> i \<Longrightarrow> i \<le> Suc (length ws) \<Longrightarrow>
   decodeLoop c ws i acc = spec_accumulate c (rev (take (Suc (length ws) - i) ws)) acc"
proof (induction c ws i acc rule: decodeLoop.induct)
  case (1 c ws i nData)
  show ?case
  proof (cases "i \<le> length ws")
    case True
    let ?k = "length ws - i"
    have k: "?k < length ws" and sk: "Suc (length ws) - i = Suc ?k"
      and k': "Suc (length ws) - (i + 1) = ?k"
      using True "1.prems" by auto
    have r: "rev (take (Suc (length ws) - i) ws) = ws ! ?k # rev (take ?k ws)"
      unfolding sk using k by (simp add: take_Suc_conv_app_nth)
    show ?thesis
    proof (cases "GetIndex c (ws ! ?k)")
      case (Inl e)
      then show ?thesis
        using True r by (simp add: decodeLoop.simps [of c ws i nData])
    next
      case (Inr d)
      have "decodeLoop c ws (i + 1) (nData * 2048 + d)
          = spec_accumulate c (rev (take (Suc (length ws) - (i + 1)) ws)) (nData * 2048 + d)"
        using "1.IH" [OF True Inr] True by simp
      then show ?thesis
        using True r Inr k' by (simp add: decodeLoop.simps [of c ws i nData])
    qed
  next
    case False
    with "1.prems" have e: "i = Suc (length ws)" by simp
    show ?thesis
      unfolding e by (subst decodeLoop.simps) simp
  qed
qed

lemma decodeLoop_rev: "decodeLoop c ws 1 0 = spec_accumulate c (rev ws) 0"
  using decodeLoop_spec [of 1 ws c 0] by simp

lemma spec_accumulate_absent:
  assumes "bytes c = None" and "distinct (words c)"
  shows "\<not> set xs \<subseteq> set (words c) \<Longrightarrow>
   spec_accumulate c xs acc
     = Inl (Err (UnrecognizedWord (hd (filter (\<lambda>w. w \<notin> set (words c)) xs))))"
proof (induction xs arbitrary: acc)
  case Nil
  then show ?case by simp
next
  case (Cons x xs)
  show ?case
  proof (cases "x \<in> set (words c)")
    case True
    then obtain k where "k < length (words c)" "words c ! k = x"
      by (auto simp: in_set_conv_nth)
    then have "GetIndex c x = Inr k"
      using GetIndex_bank [OF assms, of k] by simp
    moreover have "\<not> set xs \<subseteq> set (words c)"
      using Cons.prems True by simp
    ultimately show ?thesis
      using Cons.IH True by simp
  next
    case False
    then show ?thesis
      using GetIndex_absent [OF assms False] by simp
  qed
qed

lemma testWord_in_testBank: "k < 2048 \<Longrightarrow> testWord k \<in> set testBank"
  by (simp add: testBank_def)

lemma zebra_not_in_testBank: "''zebra'' \<notin> set testBank"
  by (auto simp: testBank_def testWord_def)

text \<open>
  C6. On a codec constructed from a bank without duplicates, decoding a word sequence
  that contains a string absent from the bank fails with \<open>UnrecognizedWord\<close> naming
  an absent string of the sequence, wherever it stands. The loop reads the sequence
  from its end, so when several absent strings occur the one named is the last of
  them; a sequence with one absent string has that string named.
\<close>

theorem unrecognized_word:
  assumes "NewCodec crc bank = Inr c" and "distinct bank" and "\<not> set ws \<subseteq> set bank"
  shows "WordsToBytes c ws
           = Inl (Err (UnrecognizedWord (last (filter (\<lambda>w. w \<notin> set bank) ws))))
       \<and> last (filter (\<lambda>w. w \<notin> set bank) ws) \<in> set ws
       \<and> last (filter (\<lambda>w. w \<notin> set bank) ws) \<notin> set bank"
proof -
  let ?absent = "filter (\<lambda>w. w \<notin> set bank) ws"
  from assms(1) have c: "words c = bank" "bytes c = None"
    by (simp_all add: NewCodec_Inr)
  have ne: "?absent \<noteq> []"
    using assms(3) by (auto simp: filter_empty_conv)
  then have "last ?absent \<in> set ?absent"
    by (rule last_in_set)
  then have m: "last ?absent \<in> set ws \<and> last ?absent \<notin> set bank"
    by simp
  have "\<not> set (rev ws) \<subseteq> set (words c)"
    using assms(3) c by simp
  then have "spec_accumulate c (rev ws) 0
      = Inl (Err (UnrecognizedWord (hd (filter (\<lambda>w. w \<notin> set (words c)) (rev ws)))))"
    using spec_accumulate_absent [of c "rev ws" 0] c assms(2) by simp
  also have "hd (filter (\<lambda>w. w \<notin> set (words c)) (rev ws)) = last ?absent"
    using ne c by (simp add: rev_filter [symmetric] hd_rev)
  finally have "WordsToBytes c ws = Inl (Err (UnrecognizedWord (last ?absent)))"
    by (simp only: WordsToBytes_def decodeLoop_rev sum.case)
  with m show ?thesis by simp
qed

theorem unrecognized_word_witness:
  "NewCodec sumECC testBank = Inr \<lparr>words = testBank, bytes = None, check = sumECC\<rparr>
   \<and> distinct testBank
   \<and> \<not> set [testWord 0, ''zebra'', testWord 5] \<subseteq> set testBank
   \<and> WordsToBytes \<lparr>words = testBank, bytes = None, check = sumECC\<rparr>
        [testWord 0, ''zebra'', testWord 5] = Inl (Err (UnrecognizedWord ''zebra''))"
proof -
  let ?c = "\<lparr>words = testBank, bytes = None, check = sumECC\<rparr>"
  have n: "NewCodec sumECC testBank = Inr ?c"
    by (simp add: NewCodec_def BankSize_def length_testBank)
  have s: "\<not> set [testWord 0, ''zebra'', testWord 5] \<subseteq> set testBank"
    using zebra_not_in_testBank by simp
  have f: "filter (\<lambda>w. w \<notin> set testBank) [testWord 0, ''zebra'', testWord 5] = [''zebra'']"
    using zebra_not_in_testBank testWord_in_testBank [of 0] testWord_in_testBank [of 5]
    by simp
  show ?thesis
    using unrecognized_word [OF n distinct_testBank s] n distinct_testBank s
    unfolding f by simp
qed

section \<open>The checksum stage\<close>

lemma Bytes_0: "Bytes 0 = []"
  by (simp add: Bytes.simps)

lemma Bytes_pos: "0 < n \<Longrightarrow> Bytes n = Bytes (n div 256) @ [of_nat (n mod 256)]"
  by (subst Bytes.simps) simp

lemma length_Bytes_two: "256 \<le> k \<Longrightarrow> k < 65536 \<Longrightarrow> length (Bytes k) = 2"
proof -
  assume a: "256 \<le> k" "k < 65536"
  then have d: "0 < k div 256" "k div 256 < 256"
    by (simp_all add: div_greater_zero_iff less_mult_imp_div_less)
  then have "(k div 256) div 256 = 0"
    by simp
  then show ?thesis
    using a d by (simp add: Bytes_pos Bytes_0)
qed

lemma bytelenFromWords_0: "bytelenFromWords 0 = (0, True)"
  by (simp add: bytelenFromWords_def wordlenFromBytes_def signed_divide_int_def)

lemma bytelenFromWords_1: "bytelenFromWords 1 = (1, False)"
  by (simp add: bytelenFromWords_def wordlenFromBytes_def signed_divide_int_def)

lemma pad_copy:
  "length d \<le> n \<Longrightarrow>
   take (n - length d) (replicate n z) @ copy (drop (n - length d) (replicate n z)) d
     = replicate (n - length d) z @ d"
  by (simp add: copy_def min_def)

lemma checkStage_panic:
  assumes "bytelenFromWords (int l) = (outLen, flex)"
    and "outLen < int (length (Bytes nData))"
  shows "checkStage crc nData l = Inl Panic"
  using assms by (simp add: checkStage_def Let_def)

lemma checkStage_checked:
  assumes "bytelenFromWords (int l) = (outLen, flex)"
    and "int (length (Bytes nData)) \<le> outLen"
  shows "checkStage crc nData l =
     (let toCheck = replicate (nat outLen - length (Bytes nData)) 0 @ Bytes nData
      in case CheckECC crc toCheck of
           Inr output \<Rightarrow> Inr output
         | Inl err \<Rightarrow>
             if flex then
               (if toCheck = [] then Inl Panic
                else case CheckECC crc (drop 1 toCheck) of
                       Inr output \<Rightarrow> Inr output
                     | Inl err' \<Rightarrow> Inl (Err (ChecksumMismatch err')))
             else Inl (Err (ChecksumMismatch err)))"
proof -
  have n: "nat (outLen - int (length (Bytes nData))) = nat outLen - length (Bytes nData)"
    using assms(2) by simp
  have le: "length (Bytes nData) \<le> nat outLen"
    using assms(2) by simp
  have "\<not> outLen - int (length (Bytes nData)) < 0"
    using assms(2) by simp
  moreover have "Bytes nData = []" if "outLen \<le> 0"
  proof -
    from that assms(2) have "length (Bytes nData) = 0" by linarith
    then show ?thesis by simp
  qed
  ultimately show ?thesis
    using assms(1) pad_copy [OF le, of "0 :: byte"]
    by (auto simp: checkStage_def Let_def n split: sum.splits)
qed

lemma decodeLoop_Nil: "decodeLoop c [] 1 0 = Inr 0"
  by (subst decodeLoop.simps) simp

text \<open>
  C8. The claim is that decoding the empty word sequence fails with an error. The
  code never does: \<open>bytelenFromWords 0\<close> is \<open>(0, True)\<close>, so when the checksum
  rejects the empty buffer the retry evaluates \<open>toCheck[1:]\<close> on an empty slice and
  panics; when the checksum accepts the empty buffer its payload is returned.
\<close>

theorem empty_sequence_never_an_error:
  "WordsToBytes c [] =
     (case CheckECC (check c) [] of Inr output \<Rightarrow> Inr output | Inl err \<Rightarrow> Inl Panic)"
proof -
  have "checkStage (check c) 0 0 =
     (case CheckECC (check c) [] of Inr output \<Rightarrow> Inr output | Inl err \<Rightarrow> Inl Panic)"
    using checkStage_checked [of 0 0 True 0 "check c"] bytelenFromWords_0
    by (simp add: Bytes_0 split: sum.splits)
  then show ?thesis
    by (simp only: WordsToBytes_def decodeLoop_Nil sum.case list.size)
qed

theorem empty_sequence_panics:
  "WordsToBytes \<lparr>words = testBank, bytes = None, check = sumECC\<rparr> [] = Inl Panic"
  using empty_sequence_never_an_error [of "\<lparr>words = testBank, bytes = None, check = sumECC\<rparr>"]
  by (simp add: sumECC_def)

lemma bytelenFromWords_zero_iff:
  assumes "bytelenFromWords (int l) = (outLen, flex)"
  shows "0 \<le> outLen \<and> (outLen = 0 \<longleftrightarrow> l = 0)"
proof -
  have "outLen = (11 * int l) div 8"
    using assms bytelenFromWords_fst [of "int l"] by simp
  then show ?thesis
    using bytelen_bounds [of "int l"] by auto
qed

text \<open>
  C7. After a failed verification of the full buffer of \<open>outLen\<close> bytes: if the flag
  is not set, the error of that verification is returned; if the flag is set and the
  sequence is not empty, the buffer without its first byte is verified, once, and the
  payload or the error of that second verification is returned. For the empty sequence
  the flag is set and the buffer has no first byte: the decoder panics instead of
  returning the checksum error.
\<close>

theorem retry_after_failed_check:
  assumes "decodeLoop c ws 1 0 = Inr nData"
    and "bytelenFromWords (int (length ws)) = (outLen, flex)"
    and "int (length (Bytes nData)) \<le> outLen"
    and "toCheck = replicate (nat outLen - length (Bytes nData)) 0 @ Bytes nData"
    and "CheckECC (check c) toCheck = Inl err"
  shows "int (length toCheck) = outLen
       \<and> WordsToBytes c ws =
           (if flex then
              (if ws = [] then Inl Panic
               else case CheckECC (check c) (drop 1 toCheck) of
                      Inr output \<Rightarrow> Inr output
                    | Inl err' \<Rightarrow> Inl (Err (ChecksumMismatch err')))
            else Inl (Err (ChecksumMismatch err)))"
proof -
  have len: "int (length toCheck) = outLen"
    using assms(3,4) by simp
  have "toCheck = [] \<longleftrightarrow> ws = []"
    using len bytelenFromWords_zero_iff [OF assms(2)] by auto
  moreover have "WordsToBytes c ws = checkStage (check c) nData (length ws)"
    by (simp only: WordsToBytes_def assms(1) sum.case)
  ultimately have "WordsToBytes c ws =
           (if flex then
              (if ws = [] then Inl Panic
               else case CheckECC (check c) (drop 1 toCheck) of
                      Inr output \<Rightarrow> Inr output
                    | Inl err' \<Rightarrow> Inl (Err (ChecksumMismatch err')))
            else Inl (Err (ChecksumMismatch err)))"
    using checkStage_checked [OF assms(2,3), of "check c"] assms(4,5)
    by (simp add: Let_def)
  with len show ?thesis by simp
qed

lemma decodeLoop_single:
  assumes "bytes c = None" and "distinct (words c)" and "k < length (words c)"
  shows "decodeLoop c [words c ! k] 1 0 = Inr k"
  using GetIndex_bank [OF assms] unfolding decodeLoop_rev by simp

text \<open>
  C9. The claim is that \<open>WordsToBytes\<close> never panics on words of the bank. A single
  word whose digit is 256 or more decodes to a number of two bytes, the candidate
  length for one word is 1, and the lower slice bound \<open>1 - 2\<close> is negative: the
  decoder panics.
\<close>

theorem oversized_digit_panics:
  assumes "NewCodec crc bank = Inr c" and "distinct bank" and "256 \<le> k" and "k < 2048"
  shows "WordsToBytes c [bank ! k] = Inl Panic"
proof -
  from assms(1) have c: "words c = bank" "bytes c = None" "length bank = 2048"
    by (simp_all add: NewCodec_Inr)
  have d: "decodeLoop c [bank ! k] 1 0 = Inr k"
    using decodeLoop_single [of c k] c assms(2,4) by simp
  have "length (Bytes k) = 2"
    using assms(3,4) by (simp add: length_Bytes_two)
  then have "checkStage (check c) k (length [bank ! k]) = Inl Panic"
    using checkStage_panic [of 1 1 False k "check c"] bytelenFromWords_1 by simp
  then show ?thesis
    by (simp only: WordsToBytes_def d sum.case)
qed

theorem oversized_digit_panics_witness:
  "NewCodec sumECC testBank = Inr \<lparr>words = testBank, bytes = None, check = sumECC\<rparr>
   \<and> distinct testBank \<and> (256 :: nat) \<le> 256 \<and> (256 :: nat) < 2048
   \<and> testWord 256 \<in> set testBank
   \<and> WordsToBytes \<lparr>words = testBank, bytes = None, check = sumECC\<rparr> [testWord 256]
       = Inl Panic"
proof -
  let ?c = "\<lparr>words = testBank, bytes = None, check = sumECC\<rparr>"
  have n: "NewCodec sumECC testBank = Inr ?c"
    by (simp add: NewCodec_def BankSize_def length_testBank)
  show ?thesis
    using oversized_digit_panics [OF n distinct_testBank, of 256] n distinct_testBank
      testBank_nth [of 256] testWord_in_testBank [of 256]
    by simp
qed

section \<open>The encoding loop\<close>

lemma upt_Suc_map: "map f [0..<Suc m] = f 0 # map (\<lambda>k. f (Suc k)) [0..<m]"
  by (simp add: upt_conv_Cons map_Suc_upt [symmetric] del: upt_Suc)

lemma encodeLoop_valid:
  "bytes c = None \<Longrightarrow> distinct (words c) \<Longrightarrow> length (words c) = 2048 \<Longrightarrow>
   encodeLoop c numWords i nData ws
     = Inr (ws @ map (\<lambda>k. words c ! ((nData div 2048 ^ k) mod 2048))
                  [0..<nat (numWords - i)])"
proof (induction c numWords i nData ws rule: encodeLoop.induct)
  case (1 c numWords i nData ws)
  note assms = "1.prems"
  show ?case
  proof (cases "i < numWords")
    case False
    then show ?thesis
      by (subst encodeLoop.simps) simp
  next
    case True
    let ?rem = "nData mod 2048"
    let ?w = "words c ! ?rem"
    have r: "?rem < length (words c)"
      using assms(3) by simp
    have g: "GetIndex c ?w = Inr ?rem"
      using GetIndex_bank [OF assms(1,2) r] .
    have n: "nat (numWords - i) = Suc (nat (numWords - (i + 1)))"
      using True by simp
    have "encodeLoop c numWords i nData ws
            = encodeLoop c numWords (i + 1) (nData div 2048) (ws @ [?w])"
      using True r g by (subst encodeLoop.simps) (simp add: Let_def)
    also have "\<dots> = Inr ((ws @ [?w]) @ map (\<lambda>k. words c ! ((nData div 2048 div 2048 ^ k) mod 2048))
                        [0..<nat (numWords - (i + 1))])"
      using "1.IH" [OF True refl refl r refl g assms] .
    also have "(ws @ [?w]) @ map (\<lambda>k. words c ! ((nData div 2048 div 2048 ^ k) mod 2048))
                        [0..<nat (numWords - (i + 1))]
             = ws @ map (\<lambda>k. words c ! ((nData div 2048 ^ k) mod 2048)) [0..<nat (numWords - i)]"
      unfolding n upt_Suc_map by (simp add: div_mult2_eq)
    finally show ?thesis .
  qed
qed

lemma spec_accumulate_bank:
  assumes "bytes c = None" and "distinct (words c)"
  shows "\<forall>d \<in> set ds. d < length (words c) \<Longrightarrow>
   spec_accumulate c (map (\<lambda>d. words c ! d) ds) acc
     = Inr (foldl (\<lambda>a d. a * 2048 + d) acc ds)"
proof (induction ds arbitrary: acc)
  case Nil
  then show ?case by simp
next
  case (Cons d ds)
  then have "GetIndex c (words c ! d) = Inr d"
    using GetIndex_bank [OF assms, of d] by simp
  with Cons show ?case by simp
qed

lemma decodeLoop_bank:
  assumes "bytes c = None" and "distinct (words c)"
    and "\<forall>d \<in> set ds. d < length (words c)"
  shows "decodeLoop c (map (\<lambda>d. words c ! d) ds) 1 0
           = Inr (foldr (\<lambda>d acc. acc * 2048 + d) ds 0)"
proof -
  have "decodeLoop c (map (\<lambda>d. words c ! d) ds) 1 0
          = spec_accumulate c (map (\<lambda>d. words c ! d) (rev ds)) 0"
    by (simp only: decodeLoop_rev rev_map)
  also have "\<dots> = Inr (foldl (\<lambda>a d. a * 2048 + d) 0 (rev ds))"
    using spec_accumulate_bank [OF assms(1,2), of "rev ds" 0] assms(3) by simp
  also have "foldl (\<lambda>a d. a * 2048 + d) 0 (rev ds) = foldr (\<lambda>d acc. acc * 2048 + d) ds 0"
    by (simp add: foldl_conv_foldr)
  finally show ?thesis .
qed

lemma foldr_digits:
  "foldr (\<lambda>d acc. acc * 2048 + d) (map (\<lambda>k. (N div 2048 ^ k) mod 2048) [0..<n]) 0
     = (N :: nat) mod 2048 ^ n"
proof (induction n arbitrary: N)
  case 0
  then show ?case by simp
next
  case (Suc n)
  have "foldr (\<lambda>d acc. acc * 2048 + d) (map (\<lambda>k. (N div 2048 ^ k) mod 2048) [0..<Suc n]) 0
      = foldr (\<lambda>d acc. acc * 2048 + d)
          (map (\<lambda>k. (N div 2048 div 2048 ^ k) mod 2048) [0..<n]) 0 * 2048 + N mod 2048"
    unfolding upt_Suc_map by (simp add: div_mult2_eq)
  also have "\<dots> = (N div 2048) mod 2048 ^ n * 2048 + N mod 2048"
    by (simp only: Suc.IH)
  also have "\<dots> = N mod 2048 ^ Suc n"
    by (simp add: mod_mult2_eq)
  finally show ?case .
qed

section \<open>Bytes and numbers\<close>

lemma SetBytes_snoc: "SetBytes (xs @ [x]) = SetBytes xs * 256 + unat x"
  by (simp add: SetBytes_def)

lemma unat_byte_less: "unat (x :: byte) < 256"
  using unsigned_less [of x, where ?'a = nat] by simp

lemma SetBytes_bound: "SetBytes xs < 256 ^ length xs"
proof (induction xs rule: rev_induct)
  case Nil
  then show ?case by (simp add: SetBytes_def)
next
  case (snoc x xs)
  from snoc.IH have "Suc (SetBytes xs) * 256 \<le> 256 ^ length xs * 256"
    by (intro mult_le_mono1) simp
  then show ?case
    using unat_byte_less [of x] by (simp add: SetBytes_snoc)
qed

lemma SetBytes_eq_0_iff: "SetBytes xs = 0 \<longleftrightarrow> (\<forall>b \<in> set xs. b = 0)"
proof (induction xs rule: rev_induct)
  case Nil
  then show ?case by (simp add: SetBytes_def)
next
  case (snoc x xs)
  then show ?case
    by (auto simp: SetBytes_snoc unat_eq_0)
qed

lemma Bytes_SetBytes: "Bytes (SetBytes xs) = dropWhile (\<lambda>b. b = 0) xs"
proof (induction xs rule: rev_induct)
  case Nil
  then show ?case by (simp add: SetBytes_def Bytes_0)
next
  case (snoc x xs)
  show ?case
  proof (cases "SetBytes (xs @ [x]) = 0")
    case True
    then have "\<forall>b \<in> set (xs @ [x]). b = 0"
      by (simp only: SetBytes_eq_0_iff)
    then have "dropWhile (\<lambda>b. b = 0) (xs @ [x]) = []"
      by (simp only: dropWhile_eq_Nil_conv)
    with True show ?thesis by (simp add: Bytes_0)
  next
    case False
    then have pos: "0 < SetBytes xs * 256 + unat x"
      by (simp add: SetBytes_snoc)
    have dm: "(SetBytes xs * 256 + unat x) div 256 = SetBytes xs"
      "(SetBytes xs * 256 + unat x) mod 256 = unat x"
      using unat_byte_less [of x] by simp_all
    have b: "Bytes (SetBytes (xs @ [x])) = dropWhile (\<lambda>b. b = 0) xs @ [x]"
      unfolding SetBytes_snoc Bytes_pos [OF pos] dm snoc.IH by simp
    show ?thesis
    proof (cases "\<forall>b \<in> set xs. b = 0")
      case True
      then have z: "SetBytes xs = 0"
        by (simp only: SetBytes_eq_0_iff)
      with False have "x \<noteq> 0"
        by (auto simp: SetBytes_snoc)
      moreover have "dropWhile (\<lambda>b. b = 0) xs = []"
        using True by (simp only: dropWhile_eq_Nil_conv)
      ultimately show ?thesis
        using b True by simp
    next
      case False
      then obtain y where "y \<in> set xs" "y \<noteq> 0"
        by blast
      then show ?thesis
        using b by simp
    qed
  qed
qed

lemma pad_dropWhile:
  assumes "length xs \<le> m"
  shows "replicate (m - length (dropWhile (\<lambda>b. b = z) xs)) z @ dropWhile (\<lambda>b. b = z) xs
           = replicate (m - length xs) z @ xs"
proof -
  let ?t = "takeWhile (\<lambda>b. b = z) xs" and ?d = "dropWhile (\<lambda>b. b = z) xs"
  have "\<forall>y \<in> set ?t. y = z"
    by (auto dest: set_takeWhileD)
  then have t: "replicate (length ?t) z = ?t"
    by (rule replicate_length_same)
  have l: "length xs = length ?t + length ?d"
    by (metis length_append takeWhile_dropWhile_id)
  then have "m - length ?d = (m - length xs) + length ?t"
    using assms by simp
  then have "replicate (m - length ?d) z @ ?d = replicate (m - length xs) z @ (?t @ ?d)"
    by (simp add: replicate_add t)
  then show ?thesis by simp
qed

lemma pad_Bytes:
  "length xs \<le> m \<Longrightarrow>
   replicate (m - length (Bytes (SetBytes xs))) 0 @ Bytes (SetBytes xs)
     = replicate (m - length xs) 0 @ xs"
  unfolding Bytes_SetBytes by (rule pad_dropWhile)

lemma length_Bytes_SetBytes: "length (Bytes (SetBytes xs)) \<le> length xs"
  unfolding Bytes_SetBytes by (rule length_dropWhile_le)

lemma power_256_le_2048:
  assumes "8 * n \<le> 11 * w"
  shows "(256 :: nat) ^ n \<le> 2048 ^ w"
proof -
  have "(256 :: nat) ^ n = 2 ^ (8 * n)" and "(2048 :: nat) ^ w = 2 ^ (11 * w)"
    by (simp_all add: power_mult)
  then show ?thesis
    using assms by simp
qed

lemma wordlen_enough:
  "0 \<le> wordlenFromBytes (int n) \<and> 8 * n \<le> 11 * nat (wordlenFromBytes (int n))"
proof -
  have "wordlenFromBytes (int n) = (8 * int n + 10) div 11"
    by (simp add: wordlenFromBytes_nonneg)
  then show ?thesis
    using wordlen_bounds [of "int n"] by auto
qed

lemma candidate_length:
  assumes "0 \<le> n" and "bytelenFromWords (wordlenFromBytes n) = (outLen, flex)"
  shows "outLen = n \<or> (outLen = n + 1 \<and> flex)"
proof -
  let ?w = "wordlenFromBytes n"
  have w: "?w = (8 * n + 10) div 11"
    using assms(1) by (simp add: wordlenFromBytes_nonneg)
  then have w0: "0 \<le> ?w"
    using assms(1) by simp
  have L: "outLen = (11 * ?w) div 8"
    using w0 assms(2) bytelenFromWords_fst [of ?w] by simp
  have range: "(11 * ?w) div 8 = n \<or> (11 * ?w) div 8 = n + 1"
    using wordlen_bounds [of n] bytelen_bounds [of ?w] unfolding w by linarith
  have "flex" if "outLen = n + 1"
    using that w0 assms(2) by (auto simp: bytelenFromWords_def Let_def sdiv_nonneg)
  with L range show ?thesis by auto
qed

section \<open>Encoding, then decoding\<close>

lemma BytesToWords_valid:
  assumes "bytes c = None" and "distinct (words c)" and "length (words c) = 2048"
  shows "BytesToWords c raw
     = Inr (map (\<lambda>k. words c ! ((SetBytes (AddECC (check c) raw) div 2048 ^ k) mod 2048))
              [0..<nat (wordlenFromBytes (int (length (AddECC (check c) raw))))])"
  using encodeLoop_valid [OF assms, of _ 0 _ "[]"] by (simp add: BytesToWords_def Let_def)

lemma WordsToBytes_bank:
  assumes "bytes c = None" and "distinct (words c)"
    and "\<forall>d \<in> set ds. d < length (words c)"
  shows "WordsToBytes c (map (\<lambda>d. words c ! d) ds)
     = checkStage (check c) (foldr (\<lambda>d acc. acc * 2048 + d) ds 0) (length ds)"
  by (simp only: WordsToBytes_def decodeLoop_bank [OF assms] sum.case length_map)

lemma decode_encode:
  assumes "bytes c = None" and "distinct (words c)" and "length (words c) = 2048"
    and "BytesToWords c raw = Inr ws"
  shows "WordsToBytes c ws
     = checkStage (check c) (SetBytes (AddECC (check c) raw))
         (nat (wordlenFromBytes (int (length (AddECC (check c) raw)))))"
proof -
  let ?data = "AddECC (check c) raw"
  let ?N = "SetBytes ?data"
  let ?w = "nat (wordlenFromBytes (int (length ?data)))"
  let ?ds = "map (\<lambda>k. (?N div 2048 ^ k) mod 2048) [0..<?w]"
  have ws: "ws = map (\<lambda>d. words c ! d) ?ds"
    using assms(4) BytesToWords_valid [OF assms(1-3), of raw] by (simp add: comp_def)
  have small: "\<forall>d \<in> set ?ds. d < length (words c)"
    using assms(3) by auto
  have "?N < 256 ^ length ?data"
    by (rule SetBytes_bound)
  also have "\<dots> \<le> 2048 ^ ?w"
    using wordlen_enough [of "length ?data"] by (intro power_256_le_2048) simp
  finally have "?N mod 2048 ^ ?w = ?N"
    by simp
  then have "foldr (\<lambda>d acc. acc * 2048 + d) ?ds 0 = ?N"
    by (simp only: foldr_digits)
  then show ?thesis
    unfolding ws using WordsToBytes_bank [OF assms(1,2) small] by simp
qed

lemma checkStage_augmented:
  assumes "CheckECC crc data = Inr raw"
  shows "checkStage crc (SetBytes data) (nat (wordlenFromBytes (int (length data))))
     = (if fst (bytelenFromWords (wordlenFromBytes (int (length data)))) = int (length data) + 1
        then (case CheckECC crc (0 # data) of Inr p \<Rightarrow> Inr p | Inl e \<Rightarrow> Inr raw)
        else Inr raw)"
proof -
  let ?n = "int (length data)"
  let ?w = "wordlenFromBytes ?n"
  obtain outLen flex where b: "bytelenFromWords ?w = (outLen, flex)"
    by (cases "bytelenFromWords ?w")
  have w: "int (nat ?w) = ?w"
    using wordlen_enough [of "length data"] by simp
  have b': "bytelenFromWords (int (nat ?w)) = (outLen, flex)"
    using b w by simp
  have cl: "outLen = ?n \<or> (outLen = ?n + 1 \<and> flex)"
    using candidate_length [OF _ b] by simp
  then have lei: "?n \<le> outLen"
    by auto
  then have le: "length data \<le> nat outLen"
    by simp
  have fits: "int (length (Bytes (SetBytes data))) \<le> outLen"
    using length_Bytes_SetBytes [of data] lei by linarith
  have pad: "replicate (nat outLen - length (Bytes (SetBytes data))) 0 @ Bytes (SetBytes data)
           = replicate (nat outLen - length data) 0 @ data"
    using le by (rule pad_Bytes)
  from cl show ?thesis
  proof
    assume "outLen = ?n"
    then show ?thesis
      using checkStage_checked [OF b' fits, of crc] assms b unfolding pad by simp
  next
    assume "outLen = ?n + 1 \<and> flex"
    then have "nat outLen - length data = 1" and "flex" and "outLen = ?n + 1"
      by auto
    then show ?thesis
      using checkStage_checked [OF b' fits, of crc] assms b unfolding pad
      by (simp split: sum.splits)
  qed
qed

text \<open>
  C5. On a codec constructed from a bank without duplicates, word \<open>k\<close> of the output of
  \<open>BytesToWords\<close> is the bank entry of digit \<open>k\<close> of the augmented buffer's number in
  base 2048, least significant digit first: the first word is the entry of the
  remainder of the first division by 2048. The loop of \<open>WordsToBytes\<close> is the fold of
  the specification over the reversed sequence, and on the bank words of digits
  \<open>ds\<close> it hands the number \<open>foldr (\<lambda>d acc. acc * 2048 + d) ds 0\<close>, accumulated
  from the last digit to the first, to the checksum stage.
\<close>

theorem least_significant_first:
  assumes "NewCodec crc bank = Inr c" and "distinct bank"
  shows "BytesToWords c raw
           = Inr (map (\<lambda>k. bank ! ((SetBytes (AddECC crc raw) div 2048 ^ k) mod 2048))
                    [0..<nat (wordlenFromBytes (int (length (AddECC crc raw))))])
       \<and> decodeLoop c ws 1 0 = spec_accumulate c (rev ws) 0
       \<and> ((\<forall>d \<in> set ds. d < 2048) \<longrightarrow>
            WordsToBytes c (map (\<lambda>d. bank ! d) ds)
              = checkStage crc (foldr (\<lambda>d acc. acc * 2048 + d) ds 0) (length ds))"
proof -
  from assms(1) have c: "words c = bank" "bytes c = None" "check c = crc" "length bank = 2048"
    by (simp_all add: NewCodec_Inr)
  have v: "bytes c = None" "distinct (words c)" "length (words c) = 2048"
    using c assms(2) by simp_all
  have 1: "BytesToWords c raw
           = Inr (map (\<lambda>k. bank ! ((SetBytes (AddECC crc raw) div 2048 ^ k) mod 2048))
                    [0..<nat (wordlenFromBytes (int (length (AddECC crc raw))))])"
    using BytesToWords_valid [OF v, of raw] c by simp
  have 3: "WordsToBytes c (map (\<lambda>d. bank ! d) ds)
              = checkStage crc (foldr (\<lambda>d acc. acc * 2048 + d) ds 0) (length ds)"
    if "\<forall>d \<in> set ds. d < 2048"
    using WordsToBytes_bank [OF v(1,2), of ds] that c by simp
  from 1 3 decodeLoop_rev [of c ws] show ?thesis by blast
qed

lemma upt_3: "[0..<3] = [0, 1, 2]"
  by (simp add: upt_rec)

lemma NewCodec_testBank:
  "NewCodec crc testBank = Inr \<lparr>words = testBank, bytes = None, check = crc\<rparr>"
  by (simp add: NewCodec_def BankSize_def length_testBank)

lemma wordlenFromBytes_3: "wordlenFromBytes 3 = 3"
  by (simp add: wordlenFromBytes_def)

lemma bytelenFromWords_3: "bytelenFromWords 3 = (4, True)"
  by (simp add: bytelenFromWords_def wordlenFromBytes_def Let_def)

lemma sumECC_contract:
  "CheckECC sumECC (AddECC sumECC x) = Inr x \<and> length (AddECC sumECC x) = length x + 1"
  by (simp add: sumECC_def)

lemma lenECC_contract:
  "CheckECC lenECC (AddECC lenECC x) = Inr x \<and> length (AddECC lenECC x) = length x + 1"
  by (simp add: lenECC_def)

lemma BytesToWords_sumECC_12:
  "BytesToWords \<lparr>words = testBank, bytes = None, check = sumECC\<rparr> [1, 2]
     = Inr [testWord 515, testWord 32, testWord 0]"
proof -
  let ?c = "\<lparr>words = testBank, bytes = None, check = sumECC\<rparr>"
  have a: "AddECC sumECC [1, 2] = [1, 2, 3]"
    by (simp add: sumECC_def)
  have n: "SetBytes [1, 2, 3] = 66051"
    by (simp add: SetBytes_def)
  show ?thesis
    using BytesToWords_valid [of ?c "[1, 2]"] distinct_testBank length_testBank
    by (simp add: a n wordlenFromBytes_3 upt_3 testBank_nth)
qed

lemma BytesToWords_lenECC_12:
  "BytesToWords \<lparr>words = testBank, bytes = None, check = lenECC\<rparr> [1, 2]
     = Inr [testWord 517, testWord 32, testWord 0]"
proof -
  let ?c = "\<lparr>words = testBank, bytes = None, check = lenECC\<rparr>"
  have a: "AddECC lenECC [1, 2] = [1, 2, 5]"
    by (simp add: lenECC_def)
  have n: "SetBytes [1, 2, 5] = 66053"
    by (simp add: SetBytes_def)
  show ?thesis
    using BytesToWords_valid [of ?c "[1, 2]"] distinct_testBank length_testBank
    by (simp add: a n wordlenFromBytes_3 upt_3 testBank_nth)
qed

theorem least_significant_first_witness:
  "NewCodec sumECC testBank = Inr \<lparr>words = testBank, bytes = None, check = sumECC\<rparr>
   \<and> distinct testBank
   \<and> SetBytes (AddECC sumECC [1, 2]) = 66051 \<and> (66051 :: nat) mod 2048 = 515
   \<and> BytesToWords \<lparr>words = testBank, bytes = None, check = sumECC\<rparr> [1, 2]
        = Inr [testWord 515, testWord 32, testWord 0]
   \<and> WordsToBytes \<lparr>words = testBank, bytes = None, check = sumECC\<rparr>
        [testWord 515, testWord 32, testWord 0]
        = checkStage sumECC ((0 * 2048 + 32) * 2048 + 515) 3"
proof -
  let ?c = "\<lparr>words = testBank, bytes = None, check = sumECC\<rparr>"
  have a: "AddECC sumECC [1, 2] = [1, 2, 3]"
    by (simp add: sumECC_def)
  have n: "SetBytes [1, 2, 3] = 66051"
    by (simp add: SetBytes_def)
  have d: "\<forall>d \<in> set [515, 32, 0 :: nat]. d < 2048"
    by simp
  show ?thesis
    using least_significant_first [OF NewCodec_testBank distinct_testBank,
        of sumECC "[1, 2]" "[]" "[515, 32, 0]"]
      NewCodec_testBank [of sumECC] distinct_testBank d
    by (simp add: a n wordlenFromBytes_3 upt_3 testBank_nth numeral_3_eq_3)
qed

text \<open>
  C1, as stated, fails. The checksum \<open>sumECC\<close> appends one byte and returns the payload
  of every buffer it produced (\<open>sumECC_contract\<close>), and the bank has 2048 distinct
  words; yet the buffer
  \<open>[1, 2]\<close> encodes to three words that decode to \<open>[0, 1, 2]\<close>. Three words stand for
  3 or 4 bytes; the decoder tries 4 bytes first, and the checksum accepts the augmented
  buffer with a zero byte in front.
\<close>

theorem round_trip_counterexample:
  "CheckECC sumECC (AddECC sumECC [1, 2]) = Inr [1, 2]
   \<and> BytesToWords \<lparr>words = testBank, bytes = None, check = sumECC\<rparr> [1, 2]
        = Inr [testWord 515, testWord 32, testWord 0]
   \<and> WordsToBytes \<lparr>words = testBank, bytes = None, check = sumECC\<rparr>
        [testWord 515, testWord 32, testWord 0] = Inr [0, 1, 2]"
proof -
  let ?c = "\<lparr>words = testBank, bytes = None, check = sumECC\<rparr>"
  have a: "AddECC sumECC [1, 2] = [1, 2, 3]"
    by (simp add: sumECC_def)
  have k: "CheckECC sumECC [1, 2, 3] = Inr [1, 2]" "CheckECC sumECC [0, 1, 2, 3] = Inr [0, 1, 2]"
    by (simp_all add: sumECC_def)
  have "WordsToBytes ?c [testWord 515, testWord 32, testWord 0]
      = checkStage sumECC (SetBytes [1, 2, 3]) (nat (wordlenFromBytes (int (length [1, 2, 3 :: byte]))))"
    using decode_encode [OF _ _ _ BytesToWords_sumECC_12] distinct_testBank length_testBank
    by (simp add: a)
  also have "\<dots> = Inr [0, 1, 2]"
    using checkStage_augmented [OF k(1)] by (simp add: wordlenFromBytes_3 bytelenFromWords_3 k)
  finally show ?thesis
    using BytesToWords_sumECC_12 by (simp add: a k)
qed

text \<open>
  C1, amended. On a codec constructed from a bank without duplicates, with a checksum
  that returns \<open>b\<close> from the augmented buffer of \<open>b\<close>: encoding \<open>b\<close> succeeds, and
  decoding the words returns \<open>b\<close> when the candidate length \<open>\<lfloor>11w/8\<rfloor>\<close> is the length
  of the augmented buffer. When the candidate length is one more, the decoder first
  verifies the augmented buffer with a zero byte in front and returns the payload of
  that verification if it succeeds; it returns \<open>b\<close> exactly when the checksum rejects
  that buffer or returns \<open>b\<close> from it.
\<close>

theorem round_trip:
  assumes "NewCodec crc bank = Inr c" and "distinct bank"
    and "CheckECC crc (AddECC crc b) = Inr b"
  shows "\<exists>ws. BytesToWords c b = Inr ws
       \<and> WordsToBytes c ws =
           (if fst (bytelenFromWords (wordlenFromBytes (int (length (AddECC crc b)))))
                 = int (length (AddECC crc b)) + 1
            then (case CheckECC crc (0 # AddECC crc b) of Inr p \<Rightarrow> Inr p | Inl e \<Rightarrow> Inr b)
            else Inr b)"
proof -
  from assms(1) have c: "words c = bank" "bytes c = None" "check c = crc" "length bank = 2048"
    by (simp_all add: NewCodec_Inr)
  have v: "bytes c = None" "distinct (words c)" "length (words c) = 2048"
    using c assms(2) by simp_all
  obtain ws where e: "BytesToWords c b = Inr ws"
    using BytesToWords_valid [OF v, of b] by blast
  have "WordsToBytes c ws
      = checkStage crc (SetBytes (AddECC crc b)) (nat (wordlenFromBytes (int (length (AddECC crc b)))))"
    using decode_encode [OF v e] c by simp
  also have "\<dots> = (if fst (bytelenFromWords (wordlenFromBytes (int (length (AddECC crc b)))))
                 = int (length (AddECC crc b)) + 1
            then (case CheckECC crc (0 # AddECC crc b) of Inr p \<Rightarrow> Inr p | Inl e \<Rightarrow> Inr b)
            else Inr b)"
    by (rule checkStage_augmented [OF assms(3)])
  finally show ?thesis
    using e by blast
qed

theorem round_trip_witness:
  "NewCodec lenECC testBank = Inr \<lparr>words = testBank, bytes = None, check = lenECC\<rparr>
   \<and> distinct testBank
   \<and> CheckECC lenECC (AddECC lenECC [1, 2]) = Inr [1, 2]
   \<and> fst (bytelenFromWords (wordlenFromBytes (int (length (AddECC lenECC [1, 2])))))
        = int (length (AddECC lenECC [1, 2])) + 1
   \<and> CheckECC lenECC (0 # AddECC lenECC [1, 2]) = Inl ''checksum mismatch''
   \<and> BytesToWords \<lparr>words = testBank, bytes = None, check = lenECC\<rparr> [1, 2]
        = Inr [testWord 517, testWord 32, testWord 0]
   \<and> WordsToBytes \<lparr>words = testBank, bytes = None, check = lenECC\<rparr>
        [testWord 517, testWord 32, testWord 0] = Inr [1, 2]"
proof -
  let ?c = "\<lparr>words = testBank, bytes = None, check = lenECC\<rparr>"
  have a: "AddECC lenECC [1, 2] = [1, 2, 5]"
    by (simp add: lenECC_def)
  have k: "CheckECC lenECC [1, 2, 5] = Inr [1, 2]"
    "CheckECC lenECC [0, 1, 2, 5] = Inl ''checksum mismatch''"
    by (simp_all add: lenECC_def)
  have k': "CheckECC lenECC (AddECC lenECC [1, 2]) = Inr [1, 2]"
    by (simp add: a k)
  show ?thesis
    using round_trip [OF NewCodec_testBank distinct_testBank k'] NewCodec_testBank [of lenECC]
      distinct_testBank
    by (simp add: a k wordlenFromBytes_3 bytelenFromWords_3 BytesToWords_lenECC_12)
qed

section \<open>Machine integers\<close>

lemma go_int_id: "- (2 ^ (bits - 1)) \<le> k \<Longrightarrow> k < 2 ^ (bits - 1) \<Longrightarrow> go_int bits k = k"
  by (simp add: go_int_def signed_take_bit_int_eq_self)

lemma go_int_id': "M = 2 ^ (bits - 1) \<Longrightarrow> - M \<le> k \<Longrightarrow> k < M \<Longrightarrow> go_int bits k = k"
  by (simp add: go_int_id)

lemma wordlenFromBytes_fixed_eq:
  assumes "- 1 \<le> n" and "8 * n + 10 < 2 ^ (bits - 1)" and "(8 :: int) \<le> 2 ^ (bits - 1)"
  shows "wordlenFromBytes_fixed bits n = wordlenFromBytes n"
proof -
  define M :: int where "M = 2 ^ (bits - 1)"
  define q where "q = (8 * n + 10) div 11"
  have M: "8 * n + 10 < M" "8 \<le> M"
    using assms by (simp_all add: M_def)
  have q: "0 \<le> q" "q \<le> 8 * n + 10"
    using assms(1) wordlen_bounds [of n] unfolding q_def by linarith+
  have 1: "go_int bits (8 * n) = 8 * n"
    using assms(1) M by (intro go_int_id' [OF M_def]) linarith+
  have 2: "go_int bits (8 * n + 10) = 8 * n + 10"
    using assms(1) M by (intro go_int_id' [OF M_def]) linarith+
  have d: "(8 * n + 10) sdiv 11 = q"
    unfolding q_def using assms(1) by (intro sdiv_nonneg) linarith+
  have 3: "go_int bits q = q"
    using q M by (intro go_int_id' [OF M_def]) linarith+
  show ?thesis
    by (simp add: wordlenFromBytes_fixed_def wordlenFromBytes_def 1 2 3 d)
qed

lemma bytelenFromWords_fixed_eq:
  assumes "0 \<le> w" and "11 * w + 10 < 2 ^ (bits - 1)" and "(8 :: int) \<le> 2 ^ (bits - 1)"
  shows "bytelenFromWords_fixed bits w = bytelenFromWords w"
proof -
  define M :: int where "M = 2 ^ (bits - 1)"
  define L where "L = (11 * w) div 8"
  have M: "11 * w + 10 < M" "8 \<le> M"
    using assms by (simp_all add: M_def)
  have L: "0 \<le> L" "8 * L \<le> 11 * w"
    using assms(1) bytelen_bounds [of w] unfolding L_def by linarith+
  have 1: "go_int bits (11 * w) = 11 * w"
    using assms(1) M by (intro go_int_id' [OF M_def]) linarith+
  have d: "(11 * w) sdiv 8 = L"
    unfolding L_def using assms(1) by (intro sdiv_nonneg) linarith+
  have 2: "go_int bits L = L"
    using assms(1) L M by (intro go_int_id' [OF M_def]) linarith+
  have 3: "go_int bits (L - 1) = L - 1"
    using assms(1) L M by (intro go_int_id' [OF M_def]) linarith+
  have "8 * (L - 1) + 10 < M"
    using assms(1) L M by (simp add: algebra_simps)
  then have 4: "wordlenFromBytes_fixed bits (L - 1) = wordlenFromBytes (L - 1)"
    using L(1) assms(3) unfolding M_def by (intro wordlenFromBytes_fixed_eq) linarith+
  show ?thesis
    using d by (simp add: bytelenFromWords_fixed_def bytelenFromWords_def Let_def 1 2 3 4)
qed

lemma lengths_on_machine_integers:
  assumes "0 \<le> n" and "bits = 32 \<and> n < 2 ^ 27 \<or> bits = 64 \<and> n < 2 ^ 59"
  shows "wordlenFromBytes_fixed bits n = wordlenFromBytes n"
    and "bytelenFromWords_fixed bits n = bytelenFromWords n"
proof -
  have b: "11 * n + 10 < 2 ^ (bits - 1)" "(8 :: int) \<le> 2 ^ (bits - 1)"
    using assms by auto
  then have "8 * n + 10 < 2 ^ (bits - 1)"
    using assms(1) by linarith
  then show "wordlenFromBytes_fixed bits n = wordlenFromBytes n"
    using assms(1) b by (intro wordlenFromBytes_fixed_eq) linarith+
  show "bytelenFromWords_fixed bits n = bytelenFromWords n"
    using assms(1) b by (intro bytelenFromWords_fixed_eq)
qed

section \<open>The retry on two concrete sequences\<close>

text \<open>
  The empty sequence, where the retry panics, and the three words of the buffer
  \<open>[1, 2]\<close> under \<open>lenECC\<close>, where the four-byte buffer is rejected and the retry on
  the three-byte buffer returns the payload.
\<close>

lemma decodeLoop_lenECC_12:
  "decodeLoop \<lparr>words = testBank, bytes = None, check = lenECC\<rparr>
     [testWord 517, testWord 32, testWord 0] 1 0 = Inr 66053"
proof -
  let ?c = "\<lparr>words = testBank, bytes = None, check = lenECC\<rparr>"
  have "decodeLoop ?c (map (\<lambda>d. words ?c ! d) [517, 32, 0]) 1 0
          = Inr (foldr (\<lambda>d acc. acc * 2048 + d) [517, 32, 0] 0)"
    using distinct_testBank length_testBank by (intro decodeLoop_bank) simp_all
  then show ?thesis
    by (simp add: testBank_nth)
qed

lemma Bytes_66053: "Bytes 66053 = [1, 2, 5]"
proof -
  have "SetBytes [1, 2, 5] = 66053"
    by (simp add: SetBytes_def)
  then show ?thesis
    using Bytes_SetBytes [of "[1, 2, 5]"] by simp
qed

theorem retry_after_failed_check_witness:
  "decodeLoop \<lparr>words = testBank, bytes = None, check = sumECC\<rparr> [] 1 0 = Inr 0
   \<and> bytelenFromWords (int (length ([] :: string list))) = (0, True)
   \<and> int (length (Bytes 0)) \<le> 0
   \<and> CheckECC sumECC [] = Inl ''input too short''
   \<and> WordsToBytes \<lparr>words = testBank, bytes = None, check = sumECC\<rparr> [] = Inl Panic
   \<and> decodeLoop \<lparr>words = testBank, bytes = None, check = lenECC\<rparr>
        [testWord 517, testWord 32, testWord 0] 1 0 = Inr 66053
   \<and> bytelenFromWords (int (length [testWord 517, testWord 32, testWord 0])) = (4, True)
   \<and> int (length (Bytes 66053)) \<le> 4
   \<and> CheckECC lenECC [0, 1, 2, 5] = Inl ''checksum mismatch''
   \<and> WordsToBytes \<lparr>words = testBank, bytes = None, check = lenECC\<rparr>
        [testWord 517, testWord 32, testWord 0] = Inr [1, 2]"
proof -
  let ?c = "\<lparr>words = testBank, bytes = None, check = sumECC\<rparr>"
  let ?c' = "\<lparr>words = testBank, bytes = None, check = lenECC\<rparr>"
  let ?ws = "[testWord 517, testWord 32, testWord 0]"
  have b: "bytelenFromWords (int (length ([] :: string list))) = (0, True)"
    using bytelenFromWords_0 by simp
  have l: "int (length (Bytes 0)) \<le> 0"
    by (simp add: Bytes_0)
  have t: "([] :: byte list) = replicate (nat 0 - length (Bytes 0)) 0 @ Bytes 0"
    by (simp add: Bytes_0)
  have e: "CheckECC (check ?c) [] = Inl ''input too short''"
    by (simp add: sumECC_def)
  have b': "bytelenFromWords (int (length ?ws)) = (4, True)"
    using bytelenFromWords_3 by simp
  have l': "int (length (Bytes 66053)) \<le> 4"
    by (simp add: Bytes_66053)
  have t': "[0, 1, 2, 5 :: byte] = replicate (nat 4 - length (Bytes 66053)) 0 @ Bytes 66053"
    by (simp add: Bytes_66053)
  have e': "CheckECC (check ?c') [0, 1, 2, 5] = Inl ''checksum mismatch''"
    by (simp add: lenECC_def)
  have r: "CheckECC lenECC [1, 2, 5] = Inr [1, 2]"
    by (simp add: lenECC_def)
  show ?thesis
    using retry_after_failed_check [OF decodeLoop_Nil b l t e]
      retry_after_failed_check [OF decodeLoop_lenECC_12 b' l' t' e']
      decodeLoop_Nil [of ?c] decodeLoop_lenECC_12 b b' l l' e e'
    by (simp add: r)
qed

end
